theory Spec2Isabelle
  imports Complex_Main "HOL-Library.Multiset" "HOL-Library.AList" "HOL-Library.Log_Nat"
begin

section \<open>Numbers, dates and time slots\<close>

text \<open>
  A JavaScript \<open>Date\<close> is its time value: a whole number of milliseconds since the
  epoch, at most 8.64e15 in magnitude, or NaN for an Invalid Date.  A date is modelled as
  \<open>int option\<close> with \<open>None\<close> for the Invalid Date (NaN).  The relational operators
  applied to dates compare the time values, and every comparison with NaN is false.
\<close>

type_synonym number = "int option"
type_synonym date = "int option"

definition getTime :: "date \<Rightarrow> number" where
  "getTime d = d"

definition num_lt :: "number \<Rightarrow> number \<Rightarrow> bool" where
  "num_lt a b = (case a of None \<Rightarrow> False | Some x \<Rightarrow> (case b of None \<Rightarrow> False | Some y \<Rightarrow> x < y))"

definition num_le :: "number \<Rightarrow> number \<Rightarrow> bool" where
  "num_le a b = (case a of None \<Rightarrow> False | Some x \<Rightarrow> (case b of None \<Rightarrow> False | Some y \<Rightarrow> x \<le> y))"

definition num_gt :: "number \<Rightarrow> number \<Rightarrow> bool" where
  "num_gt a b = num_lt b a"

definition num_ge :: "number \<Rightarrow> number \<Rightarrow> bool" where
  "num_ge a b = num_le b a"

text \<open>
  Sums and differences of time values, where NaN is absorbing.  Both operands are whole
  numbers; the sums and differences are taken exactly.
\<close>

definition num_add :: "number \<Rightarrow> number \<Rightarrow> number" where
  "num_add a b = (case a of None \<Rightarrow> None | Some x \<Rightarrow> (case b of None \<Rightarrow> None | Some y \<Rightarrow> Some (x + y)))"

definition num_sub :: "number \<Rightarrow> number \<Rightarrow> number" where
  "num_sub a b = (case a of None \<Rightarrow> None | Some x \<Rightarrow> (case b of None \<Rightarrow> None | Some y \<Rightarrow> Some (x - y)))"

text \<open>
  \<open>getHours\<close> is the hour of the day in local time.  The time zone of the process is a
  parameter \<open>tza\<close>: the offset of local time from UTC, in milliseconds, at a given time
  value (it varies with daylight saving time).  An Invalid Date has the hour NaN.
\<close>

definition getHours :: "(int \<Rightarrow> int) \<Rightarrow> date \<Rightarrow> number" where
  "getHours tza d = (case d of None \<Rightarrow> None | Some t \<Rightarrow> Some (((t + tza t) div 3600000) mod 24))"

record TimeSlot =
  slot_start :: date
  slot_end :: date

record Event =
  uid :: string
  summary :: string
  startDate :: date
  endDate :: date
  location :: "string option"
  description :: "string option"
  calendar :: "string option"

section \<open>Numbers that need not be whole\<close>

text \<open>
  A JavaScript number is a double.  It is modelled by its exact rational value, or one of
  the special values of the arithmetic: negative zero, the two infinities and NaN
  (\<open>Fin 0\<close> is positive zero).
\<close>

datatype jsnum = Fin rat | NegZero | PosInf | NegInf | NaN

text \<open>
  The result of an operation on doubles is the exact result rounded to the nearest
  double, ties to the even significand: \<open>fl\<close>.  A double has a significand of 53 bits;
  below \<open>2^-1022\<close> the spacing of the doubles is fixed.  (Overflow to an infinity is left
  out: the sum of a time value and a finite double cannot overflow.)
\<close>

definition pow2 :: "int \<Rightarrow> rat" where
  "pow2 k = (if 0 \<le> k then 2 ^ nat k else 1 / 2 ^ nat (- k))"

text \<open>For \<open>x > 0\<close>, the exponent \<open>e\<close> with \<open>2^e \<le> x < 2^(e+1)\<close>.\<close>

definition ilog2 :: "rat \<Rightarrow> int" where
  "ilog2 x = (if 1 \<le> x then bitlen \<lfloor>x\<rfloor> - 1
              else (let k = bitlen \<lfloor>1 / x\<rfloor> - 1 in if x = pow2 (- k) then - k else - k - 1))"

definition round_even :: "rat \<Rightarrow> int" where
  "round_even y = (let f = \<lfloor>y\<rfloor>; r = y - of_int f in
     if r < 1 / 2 then f else if 1 / 2 < r then f + 1 else if even f then f else f + 1)"

definition fl :: "rat \<Rightarrow> rat" where
  "fl x = (if x = 0 then 0
           else (let u = pow2 (max (ilog2 \<bar>x\<bar>) (- 1022) - 52) in of_int (round_even (x / u)) * u))"

text \<open>
  \<open>t + duration\<close> for a time value \<open>t\<close> and a number \<open>duration\<close>, and the comparison
  \<open>x <= t\<close> of a number with a time value.
\<close>

definition plus_duration :: "number \<Rightarrow> jsnum \<Rightarrow> jsnum" where
  "plus_duration t d = (case t of
       None \<Rightarrow> NaN
     | Some c \<Rightarrow> (case d of
           Fin x \<Rightarrow> Fin (fl (of_int c + x))
         | NegZero \<Rightarrow> Fin (of_int c)
         | PosInf \<Rightarrow> PosInf
         | NegInf \<Rightarrow> NegInf
         | NaN \<Rightarrow> NaN))"

definition le_time :: "jsnum \<Rightarrow> number \<Rightarrow> bool" where
  "le_time a t = (case t of
       None \<Rightarrow> False
     | Some e \<Rightarrow> (case a of
           Fin v \<Rightarrow> v \<le> of_int e
         | NegZero \<Rightarrow> 0 \<le> e
         | PosInf \<Rightarrow> False
         | NegInf \<Rightarrow> True
         | NaN \<Rightarrow> False))"

text \<open>
  The \<open>Date\<close> constructor clips the time value it is given: a number beyond 8.64e15 in
  magnitude, an infinity or NaN makes an Invalid Date, and any other number is truncated
  towards zero to a whole number of milliseconds.  \<open>dateOfTime\<close> is the constructor
  applied to a date or to a whole time value, \<open>dateOfNumber\<close> to any number.
\<close>

definition maxTime :: int where
  "maxTime = 8640000000000000"

definition toInteger :: "rat \<Rightarrow> int" where
  "toInteger v = (if 0 \<le> v then \<lfloor>v\<rfloor> else \<lceil>v\<rceil>)"

definition dateOfTime :: "number \<Rightarrow> date" where
  "dateOfTime t = (case t of None \<Rightarrow> None | Some c \<Rightarrow> if \<bar>c\<bar> \<le> maxTime then Some c else None)"

definition dateOfNumber :: "jsnum \<Rightarrow> date" where
  "dateOfNumber a = (case a of
       Fin v \<Rightarrow> if \<bar>v\<bar> \<le> of_int maxTime then Some (toInteger v) else None
     | NegZero \<Rightarrow> Some 0
     | _ \<Rightarrow> None)"

section \<open>Overlap, conflicts, freedom\<close>

definition hasOverlap :: "TimeSlot \<Rightarrow> TimeSlot \<Rightarrow> bool" where
  "hasOverlap slot1 slot2 =
     ((num_lt (slot_start slot1) (slot_end slot2) \<and> num_gt (slot_end slot1) (slot_start slot2)) \<or>
      (num_lt (slot_start slot2) (slot_end slot1) \<and> num_gt (slot_end slot2) (slot_start slot1)))"

definition eventSlot :: "Event \<Rightarrow> TimeSlot" where
  "eventSlot event = \<lparr>slot_start = startDate event, slot_end = endDate event\<rparr>"

definition findConflicts :: "TimeSlot \<Rightarrow> Event list \<Rightarrow> Event list" where
  "findConflicts timeSlot events = filter (\<lambda>event. hasOverlap timeSlot (eventSlot event)) events"

definition isFree :: "TimeSlot \<Rightarrow> Event list \<Rightarrow> bool" where
  "isFree timeSlot events = (length (findConflicts timeSlot events) = 0)"

section \<open>Free-slot search\<close>

definition step :: int where
  "step = 30 * 60 * 1000"

text \<open>
  The \<open>while\<close> loop of \<open>findFreeSlots\<close>, with the loop variables \<open>currentTime\<close> and
  \<open>freeSlots\<close> as arguments.  \<open>duration\<close> is any number, so
  \<open>currentTime.getTime() + duration\<close> is a sum of doubles, rounded, and the date made
  from it is truncated.  \<open>currentTime.getTime() + step\<close> is the exact sum: the time value
  of a date and \<open>step\<close> are whole numbers whose sum is below \<open>2^53\<close> in magnitude, and
  such a sum of doubles is exact (\<open>step_exact\<close> below).  The test fails as soon as a
  time value is NaN.
\<close>

function findFreeSlots_loop ::
  "(int \<Rightarrow> int) \<Rightarrow> date \<Rightarrow> jsnum \<Rightarrow> Event list \<Rightarrow> bool \<Rightarrow> date \<Rightarrow> TimeSlot list \<Rightarrow> TimeSlot list" where
  "findFreeSlots_loop tza endDate' duration events businessHoursOnly currentTime freeSlots =
     (if le_time (plus_duration (getTime currentTime) duration) (getTime endDate') then
        (if businessHoursOnly \<and>
            (num_lt (getHours tza currentTime) (Some 9) \<or> num_ge (getHours tza currentTime) (Some 17))
         then findFreeSlots_loop tza endDate' duration events businessHoursOnly
                (dateOfTime (num_add (getTime currentTime) (Some step))) freeSlots
         else
           (let slot = \<lparr>slot_start = dateOfTime (getTime currentTime),
                        slot_end = dateOfNumber (plus_duration (getTime currentTime) duration)\<rparr>
            in findFreeSlots_loop tza endDate' duration events businessHoursOnly
                 (dateOfTime (num_add (getTime currentTime) (Some step)))
                 (if isFree slot events then freeSlots @ [slot] else freeSlots)))
      else freeSlots)"
  by pat_completeness auto
termination
  by (relation "measure (\<lambda>(tza, endDate', duration, events, businessHoursOnly, currentTime, freeSlots).
        case currentTime of None \<Rightarrow> 0
        | Some c \<Rightarrow> if maxTime < c then 1 else nat (maxTime - c) + 2)")
     (auto simp: le_time_def plus_duration_def dateOfTime_def num_add_def getTime_def step_def
        maxTime_def split: option.splits if_splits)

declare findFreeSlots_loop.simps [simp del]

definition findFreeSlots ::
  "(int \<Rightarrow> int) \<Rightarrow> date \<Rightarrow> date \<Rightarrow> jsnum \<Rightarrow> Event list \<Rightarrow> bool \<Rightarrow> TimeSlot list" where
  "findFreeSlots tza startDate' endDate' duration events businessHoursOnly =
     findFreeSlots_loop tza endDate' duration events businessHoursOnly (dateOfTime (getTime startDate')) []"


section \<open>Optimal slot\<close>

text \<open>
  \<open>preferences\<close> is optional (\<open>None\<close> when the argument is absent).  A slot is scored 1
  when the local hour of its start is in the list and 0 otherwise; an Invalid Date has no
  hour that a list of whole hours includes.  \<open>Array.prototype.sort\<close> is stable, and the
  comparator \<open>b.score - a.score\<close> orders by descending score: this is the stable
  insertion sort on the key \<open>- score\<close>.
\<close>

definition includes_hour :: "int list \<Rightarrow> number \<Rightarrow> bool" where
  "includes_hour preferences hour = (case hour of None \<Rightarrow> False | Some h \<Rightarrow> h \<in> set preferences)"

definition score :: "(int \<Rightarrow> int) \<Rightarrow> int list \<Rightarrow> TimeSlot \<Rightarrow> int" where
  "score tza preferences slot = (if includes_hour preferences (getHours tza (slot_start slot)) then 1 else 0)"

definition findOptimalSlot ::
  "(int \<Rightarrow> int) \<Rightarrow> TimeSlot list \<Rightarrow> Event list \<Rightarrow> int list option \<Rightarrow> TimeSlot option" where
  "findOptimalSlot tza candidates events preferences =
     (let freeSlots = filter (\<lambda>slot. isFree slot events) candidates in
      if length freeSlots = 0 then None
      else if length freeSlots = 1 then Some (freeSlots ! 0)
      else (case preferences of
              Some prefs \<Rightarrow>
                if length prefs > 0 then
                  (let scoredSlots = map (\<lambda>slot. (slot, score tza prefs slot)) freeSlots;
                       sortedSlots = sort_key (\<lambda>p. - snd p) scoredSlots
                   in Some (fst (sortedSlots ! 0)))
                else Some (freeSlots ! 0)
            | None \<Rightarrow> Some (freeSlots ! 0)))"

section \<open>Schedule analytics\<close>











text \<open>
  \<open>toISOString\<close> gives the UTC date and time of a time value as
  \<open>YYYY-MM-DDTHH:mm:ss.sssZ\<close> (years outside 0..9999 are written with a sign and six
  digits) and throws a RangeError on an Invalid Date: the result is \<open>None\<close> then.
\<close>

definition digit :: "nat \<Rightarrow> char" where
  "digit n = ''0123456789'' ! (n mod 10)"

fun digits :: "nat \<Rightarrow> string" where
  "digits n = (if n < 10 then [digit n] else digits (n div 10) @ [digit (n mod 10)])"

declare digits.simps [simp del]

definition padStart :: "nat \<Rightarrow> string \<Rightarrow> string" where
  "padStart w s = replicate (w - length s) (CHR ''0'') @ s"

definition civil_from_days :: "int \<Rightarrow> int \<times> int \<times> int" where
  "civil_from_days z0 =
     (let z = z0 + 719468;
          era = z div 146097;
          doe = z mod 146097;
          yoe = (doe - doe div 1460 + doe div 36524 - doe div 146096) div 365;
          doy = doe - (365 * yoe + yoe div 4 - yoe div 100);
          mp = (5 * doy + 2) div 153;
          d = doy - (153 * mp + 2) div 5 + 1;
          m = (if mp < 10 then mp + 3 else mp - 9);
          y = yoe + era * 400 + (if m \<le> 2 then 1 else 0)
      in (y, m, d))"

definition yearString :: "int \<Rightarrow> string" where
  "yearString y =
     (if 0 \<le> y \<and> y \<le> 9999 then padStart 4 (digits (nat y))
      else (if y < 0 then ''-'' else ''+'') @ padStart 6 (digits (nat \<bar>y\<bar>)))"

definition toISOString :: "date \<Rightarrow> string option" where
  "toISOString d = (case d of
       None \<Rightarrow> None
     | Some t \<Rightarrow>
         (let ms = t mod 86400000 in
          case civil_from_days (t div 86400000) of (y, m, dd) \<Rightarrow>
            Some (yearString y @ ''-'' @ padStart 2 (digits (nat m)) @ ''-'' @ padStart 2 (digits (nat dd))
                  @ ''T'' @ padStart 2 (digits (nat (ms div 3600000)))
                  @ '':'' @ padStart 2 (digits (nat (ms div 60000 mod 60)))
                  @ '':'' @ padStart 2 (digits (nat (ms div 1000 mod 60)))
                  @ ''.'' @ padStart 3 (digits (nat (ms mod 1000))) @ ''Z'')))"

text \<open>\<open>s.split(c)[0]\<close>: the part of \<open>s\<close> before the first \<open>c\<close>.\<close>

definition split0 :: "char \<Rightarrow> string \<Rightarrow> string" where
  "split0 c s = takeWhile (\<lambda>x. x \<noteq> c) s"

datatype error = RangeError

text \<open>
  The \<open>Map\<close> of \<open>groupEventsByDay\<close> keeps its keys in the order of their first insertion:
  an association list, where \<open>set\<close> on a key that is present replaces the value in place
  and on a new key appends the entry.
\<close>

fun groupEventsByDay_loop ::
  "Event list \<Rightarrow> (string \<times> Event list) list \<Rightarrow> error + (string \<times> Event list) list" where
  "groupEventsByDay_loop [] grouped = Inr grouped"
| "groupEventsByDay_loop (event # rest) grouped =
     (case toISOString (startDate event) of
        None \<Rightarrow> Inl RangeError
      | Some isoString \<Rightarrow>
          (let dateKey = split0 (CHR ''T'') isoString in
           if dateKey = [] then groupEventsByDay_loop rest grouped
           else
             (let dayEvents = (case map_of grouped dateKey of Some es \<Rightarrow> es | None \<Rightarrow> [])
              in groupEventsByDay_loop rest (AList.update dateKey (dayEvents @ [event]) grouped))))"

definition groupEventsByDay :: "Event list \<Rightarrow> error + (string \<times> Event list) list" where
  "groupEventsByDay events = groupEventsByDay_loop events []"

section \<open>Expansion of recurring events\<close>

text \<open>
  \<open>listEvents\<close> and \<open>listAllEvents\<close> run an AppleScript and then work on its output, a
  string \<open>result\<close> with one line per event and the fields of an event separated by
  \<open>|\<close>.  The model starts from that string.  A field that the line does not have is
  \<open>undefined\<close>: \<open>None\<close>.
\<close>

fun splitOn :: "char \<Rightarrow> string \<Rightarrow> string list" where
  "splitOn c [] = [[]]"
| "splitOn c (x # xs) =
     (if x = c then [] # splitOn c xs
      else (case splitOn c xs of [] \<Rightarrow> [[x]] | h # t \<Rightarrow> (x # h) # t))"

definition field :: "nat \<Rightarrow> string list \<Rightarrow> string option" where
  "field i parts = (if i < length parts then Some (parts ! i) else None)"

text \<open>\<open>x || ''\<close>, the truth value of an optional string, and \<open>...(x && { x })\<close>.\<close>

definition or_empty :: "string option \<Rightarrow> string" where
  "or_empty x = (case x of None \<Rightarrow> [] | Some s \<Rightarrow> s)"

definition truthy :: "string option \<Rightarrow> bool" where
  "truthy x = (case x of None \<Rightarrow> False | Some s \<Rightarrow> s \<noteq> [])"

definition present :: "string option \<Rightarrow> string option" where
  "present x = (if truthy x then x else None)"

text \<open>
  A string is the list of the bytes of its UTF-8 encoding.  \<open>trim\<close> removes the white
  space and the line terminators of the language at both ends: the ASCII ones, the no-break
  space, the space separators of Unicode, the line and paragraph separators and the byte
  order mark.  No white space sequence is the start of another.
\<close>

definition whiteSpace :: "string list" where
  "whiteSpace =
     [[CHR 0x09], [CHR 0x0A], [CHR 0x0B], [CHR 0x0C], [CHR 0x0D], [CHR 0x20],
      [CHR 0xC2, CHR 0xA0],
      [CHR 0xE1, CHR 0x9A, CHR 0x80],
      [CHR 0xE2, CHR 0x80, CHR 0x80], [CHR 0xE2, CHR 0x80, CHR 0x81],
      [CHR 0xE2, CHR 0x80, CHR 0x82], [CHR 0xE2, CHR 0x80, CHR 0x83],
      [CHR 0xE2, CHR 0x80, CHR 0x84], [CHR 0xE2, CHR 0x80, CHR 0x85],
      [CHR 0xE2, CHR 0x80, CHR 0x86], [CHR 0xE2, CHR 0x80, CHR 0x87],
      [CHR 0xE2, CHR 0x80, CHR 0x88], [CHR 0xE2, CHR 0x80, CHR 0x89],
      [CHR 0xE2, CHR 0x80, CHR 0x8A],
      [CHR 0xE2, CHR 0x80, CHR 0xA8], [CHR 0xE2, CHR 0x80, CHR 0xA9],
      [CHR 0xE2, CHR 0x80, CHR 0xAF],
      [CHR 0xE2, CHR 0x81, CHR 0x9F],
      [CHR 0xE3, CHR 0x80, CHR 0x80],
      [CHR 0xEF, CHR 0xBB, CHR 0xBF]]"

function stripPrefixes :: "string list \<Rightarrow> string \<Rightarrow> string" where
  "stripPrefixes ws s =
     (case List.find (\<lambda>w. w \<noteq> [] \<and> take (length w) s = w) ws of
        None \<Rightarrow> s
      | Some w \<Rightarrow> stripPrefixes ws (drop (length w) s))"
  by pat_completeness auto
termination
proof (relation "measure (\<lambda>(ws, s). length s)")
  show "wf (measure (\<lambda>(ws, s). length s))" by simp
next
  fix ws :: "string list" and s w :: string
  assume "List.find (\<lambda>w. w \<noteq> [] \<and> take (length w) s = w) ws = Some w"
  then have "w \<noteq> []" and "take (length w) s = w"
    by (auto simp: find_Some_iff)
  then have "s \<noteq> []" by auto
  with \<open>w \<noteq> []\<close> show "((ws, drop (length w) s), (ws, s)) \<in> measure (\<lambda>(ws, s). length s)"
    by simp
qed

declare stripPrefixes.simps [simp del]

definition trim :: "string \<Rightarrow> string" where
  "trim s = rev (stripPrefixes (map rev whiteSpace) (rev (stripPrefixes whiteSpace s)))"

record RawEvent =
  raw_calendar :: "string option"
  raw_uid :: "string option"
  raw_summary :: "string option"
  raw_startStr :: "string option"
  raw_endStr :: "string option"
  raw_location :: "string option"
  raw_description :: "string option"
  raw_recurrence :: "string option"

text \<open>The destructuring of \<open>line.split('|')\<close> in \<open>listEvents\<close> and in \<open>listAllEvents\<close>.\<close>

definition parseLine :: "string \<Rightarrow> RawEvent" where
  "parseLine line =
     (let parts = splitOn (CHR ''|'') line in
      \<lparr>raw_calendar = None, raw_uid = field 0 parts, raw_summary = field 1 parts,
       raw_startStr = field 2 parts, raw_endStr = field 3 parts, raw_location = field 4 parts,
       raw_description = field 5 parts, raw_recurrence = field 6 parts\<rparr>)"


text \<open>
  Two functions of the runtime and of the rrule library are parameters:
  \<open>newDate\<close>, the date that \<open>new Date(string)\<close> parses (an Invalid Date when it cannot),
  and \<open>rr\<close>, which stands for \<open>rrulestr(text).between(queryStartDate, queryEndDate, true)\<close>:
  the time values of the occurrences, or \<open>None\<close> when either call throws.
\<close>

definition baseStart :: "(string \<Rightarrow> date) \<Rightarrow> RawEvent \<Rightarrow> date" where
  "baseStart newDate raw = newDate (or_empty (raw_startStr raw))"

definition baseEnd :: "(string \<Rightarrow> date) \<Rightarrow> RawEvent \<Rightarrow> date" where
  "baseEnd newDate raw = newDate (or_empty (raw_endStr raw))"

definition mkEvent :: "string option \<Rightarrow> RawEvent \<Rightarrow> date \<Rightarrow> date \<Rightarrow> Event" where
  "mkEvent cal raw start end' =
     \<lparr>uid = or_empty (raw_uid raw), summary = or_empty (raw_summary raw),
      startDate = start, endDate = end',
      location = present (raw_location raw), description = present (raw_description raw),
      calendar = cal\<rparr>"

text \<open>
  The statements of the \<open>try\<close> block up to the list of occurrences.  \<open>toISOString\<close>
  throws on an Invalid Date, inside the block.
\<close>

definition dtstart :: "string \<Rightarrow> string" where
  "dtstart isoString = split0 (CHR ''.'') (filter (\<lambda>c. c \<noteq> CHR ''-'' \<and> c \<noteq> CHR '':'') isoString)"

definition tryExpand ::
  "(string \<Rightarrow> date \<Rightarrow> date \<Rightarrow> int list option) \<Rightarrow> date \<Rightarrow> string \<Rightarrow> date \<Rightarrow> date \<Rightarrow> int list option" where
  "tryExpand rr start recurrence queryStartDate queryEndDate =
     (case toISOString start of
        None \<Rightarrow> None
      | Some isoString \<Rightarrow>
          rr (''DTSTART:'' @ dtstart isoString @ ''Z'' @ [CHR 0x0A] @ ''RRULE:'' @ recurrence)
             queryStartDate queryEndDate)"

text \<open>
  The body of the loop over the lines, the same in both functions: the events it pushes
  and what it writes to the error console (the rule that could not be parsed).
\<close>

definition expandDefinition ::
  "(string \<Rightarrow> date \<Rightarrow> date \<Rightarrow> int list option) \<Rightarrow> (string \<Rightarrow> date) \<Rightarrow> string option
     \<Rightarrow> date \<Rightarrow> date \<Rightarrow> RawEvent \<Rightarrow> Event list \<times> string list" where
  "expandDefinition rr newDate cal queryStartDate queryEndDate raw =
     (let start = newDate (or_empty (raw_startStr raw));
          end' = newDate (or_empty (raw_endStr raw));
          duration = num_sub (getTime end') (getTime start);
          recurrence = raw_recurrence raw
      in
      if truthy recurrence \<and> trim (or_empty recurrence) \<noteq> [] then
        (case tryExpand rr start (or_empty recurrence) queryStartDate queryEndDate of
           Some occurrences \<Rightarrow>
             (map (\<lambda>occurrence.
                     mkEvent cal raw (Some occurrence) (num_add (getTime (Some occurrence)) duration))
                  occurrences, [])
         | None \<Rightarrow> ([mkEvent cal raw start end'], [or_empty recurrence]))
      else if num_ge start queryStartDate \<and> num_le start queryEndDate then
        ([mkEvent cal raw start end'], [])
      else ([], []))"

definition resultLines :: "string \<Rightarrow> string list" where
  "resultLines result = filter (\<lambda>l. l \<noteq> []) (splitOn (CHR 0x0A) result)"

definition listEvents ::
  "(string \<Rightarrow> date \<Rightarrow> date \<Rightarrow> int list option) \<Rightarrow> (string \<Rightarrow> date) \<Rightarrow> string
     \<Rightarrow> date \<Rightarrow> date \<Rightarrow> string \<Rightarrow> Event list \<times> string list" where
  "listEvents rr newDate calendar' queryStartDate queryEndDate result =
     (if result = [] then ([], [])
      else
        (let outs = map (\<lambda>line. expandDefinition rr newDate (Some calendar')
                                   queryStartDate queryEndDate (parseLine line))
                        (resultLines result)
         in (concat (map fst outs), concat (map snd outs))))"


text \<open>The grid of candidate starts, and the slot at its \<open>k\<close>-th point.\<close>

definition onGrid :: "date \<Rightarrow> TimeSlot \<Rightarrow> bool" where
  "onGrid ws s = (\<exists>t k. ws = Some t \<and> slot_start s = Some (t + int k * step))"

definition slotAt :: "int \<Rightarrow> int \<Rightarrow> nat \<Rightarrow> TimeSlot" where
  "slotAt s d k = \<lparr>slot_start = Some (s + int k * step), slot_end = Some (s + int k * step + d)\<rparr>"

text \<open>A date that the \<open>Date\<close> constructor can have made.\<close>

definition validDate :: "date \<Rightarrow> bool" where
  "validDate d = (case d of None \<Rightarrow> True | Some t \<Rightarrow> \<bar>t\<bar> \<le> maxTime)"


text \<open>
  The calendar date (UTC) of a time value as \<open>toISOString\<close> writes it, and the key under
  which \<open>groupEventsByDay\<close> files an event whose start is a valid date.
\<close>

definition isoDate :: "int \<Rightarrow> string" where
  "isoDate t = (case civil_from_days (t div 86400000) of (y, m, dd) \<Rightarrow>
     yearString y @ ''-'' @ padStart 2 (digits (nat m)) @ ''-'' @ padStart 2 (digits (nat dd)))"

definition dateKeyOf :: "Event \<Rightarrow> string" where
  "dateKeyOf event = (case toISOString (startDate event) of
       None \<Rightarrow> [] | Some isoString \<Rightarrow> split0 (CHR ''T'') isoString)"

section \<open>The overlap predicate\<close>

lemma hasOverlap_iff:
  "hasOverlap a b \<longleftrightarrow> num_lt (slot_start a) (slot_end b) \<and> num_lt (slot_start b) (slot_end a)"
  by (auto simp: hasOverlap_def num_gt_def)

lemma isFree_iff: "isFree s events \<longleftrightarrow> (\<forall>e\<in>set events. \<not> hasOverlap s (eventSlot e))"
  by (simp add: isFree_def findConflicts_def filter_empty_conv)

text \<open>
  Claim C5, as stated, says that a slot of length zero overlaps nothing.  The instant
  \<open>[5, 5]\<close> lies strictly inside \<open>[0, 10]\<close>, and both strict inequalities hold there.
\<close>

theorem hasOverlap_zero_length_counterexample:
  "slot_start \<lparr>slot_start = Some 5, slot_end = Some 5\<rparr> = slot_end \<lparr>slot_start = Some 5, slot_end = Some 5\<rparr>
   \<and> hasOverlap \<lparr>slot_start = Some 5, slot_end = Some 5\<rparr> \<lparr>slot_start = Some 0, slot_end = Some 10\<rparr>"
  by (simp add: hasOverlap_def num_lt_def num_gt_def)

text \<open>
  Claim C5, amended: \<open>hasOverlap a b\<close> holds exactly when \<open>a.start < b.end\<close> and
  \<open>b.start < a.end\<close>; it is symmetric; touching slots (\<open>a.end = b.start\<close>) do not overlap;
  a slot of length zero overlaps neither itself nor another slot of length zero, and it
  overlaps \<open>b\<close> exactly when its instant lies strictly between the start and the end of \<open>b\<close>.
\<close>

theorem hasOverlap_half_open:
  "(hasOverlap a b \<longleftrightarrow> num_lt (slot_start a) (slot_end b) \<and> num_lt (slot_start b) (slot_end a))
   \<and> hasOverlap a b = hasOverlap b a
   \<and> (slot_end a = slot_start b \<longrightarrow> \<not> hasOverlap a b)
   \<and> (slot_start a = slot_end a \<longrightarrow>
        \<not> hasOverlap a a
        \<and> (slot_start b = slot_end b \<longrightarrow> \<not> hasOverlap a b)
        \<and> (hasOverlap a b \<longleftrightarrow> num_lt (slot_start b) (slot_start a) \<and> num_lt (slot_start a) (slot_end b)))"
  by (auto simp: hasOverlap_iff num_lt_def split: option.splits)

theorem hasOverlap_half_open_witness:
  "slot_end \<lparr>slot_start = Some 5, slot_end = Some 5\<rparr> = slot_start \<lparr>slot_start = Some 5, slot_end = Some 5\<rparr>
   \<and> slot_start \<lparr>slot_start = Some 5, slot_end = Some 5\<rparr> = slot_end \<lparr>slot_start = Some 5, slot_end = Some 5\<rparr>
   \<and> \<not> hasOverlap \<lparr>slot_start = Some 5, slot_end = Some 5\<rparr> \<lparr>slot_start = Some 5, slot_end = Some 5\<rparr>"
  using hasOverlap_half_open [of "\<lparr>slot_start = Some 5, slot_end = Some 5\<rparr>" "\<lparr>slot_start = Some 5, slot_end = Some 5\<rparr>"]
  by (simp add: num_lt_def)

section \<open>Rounding to a double\<close>

lemma round_even_of_int: "round_even (of_int m) = m"
  by (simp add: round_even_def)

lemma round_even_ge_floor: "\<lfloor>y\<rfloor> \<le> round_even y"
  by (simp add: round_even_def Let_def)

text \<open>Whole numbers below \<open>2^53\<close> in magnitude are doubles.\<close>

lemma fl_int:
  assumes "\<bar>n\<bar> < 2 ^ 53"
  shows "fl (of_int n) = of_int n"
proof (cases "n = 0")
  case True
  then show ?thesis by (simp add: fl_def)
next
  case False
  define a where "a = \<bar>n\<bar>"
  have apos: "0 < a" using False by (simp add: a_def)
  define e where "e = bitlen a - 1"
  have abs: "\<bar>rat_of_int n\<bar> = of_int a" by (simp add: a_def)
  have one: "(1::rat) \<le> of_int a" using apos by simp
  have il: "ilog2 (of_int a) = e"
    using one by (simp add: ilog2_def e_def)
  from bitlen_bounds [OF apos] have lo: "2 ^ nat e \<le> a" and hi: "a < 2 ^ nat (bitlen a)"
    by (simp_all add: e_def)
  have e0: "0 \<le> e"
    using apos bitlen_eq_zero_iff [of a] bitlen_nonneg [of a] by (simp add: e_def)
  have "(2::int) ^ nat e < 2 ^ 53"
    using lo assms by (simp add: a_def)
  then have "nat e < 53" by (rule power_less_imp_less_exp [rotated]) simp
  then have e52: "e \<le> 52" by simp
  define k where "k = nat (52 - e)"
  have u: "pow2 (max e (- 1022) - 52) = 1 / 2 ^ k"
  proof (cases "e = 52")
    case True
    then show ?thesis by (simp add: pow2_def k_def)
  next
    case False
    with e52 have "e < 52" by simp
    with e0 show ?thesis by (simp add: pow2_def k_def max_def)
  qed
  have q: "rat_of_int n / (1 / 2 ^ k) = of_int (n * 2 ^ k)" by simp
  have "fl (of_int n) = of_int (round_even (rat_of_int n / (1 / 2 ^ k))) * (1 / 2 ^ k)"
    using False by (simp add: fl_def abs il u Let_def)
  also have "\<dots> = of_int (n * 2 ^ k) * (1 / 2 ^ k)"
    by (simp only: q round_even_of_int)
  also have "\<dots> = of_int n" by simp
  finally show ?thesis .
qed

text \<open>Rounding does not take a number from \<open>2^53\<close> or above to below \<open>2^53\<close>.\<close>

lemma fl_ge:
  assumes "2 ^ 53 \<le> x"
  shows "2 ^ 53 \<le> fl x"
proof -
  have xpos: "0 < x" using assms by simp
  define a where "a = \<lfloor>x\<rfloor>"
  have a53: "2 ^ 53 \<le> a"
    using assms by (simp add: a_def le_floor_iff)
  then have apos: "0 < a" by simp
  have ax: "rat_of_int a \<le> x" by (simp add: a_def)
  define e where "e = bitlen a - 1"
  have one: "1 \<le> x" using assms by simp
  have il: "ilog2 x = e"
    using one by (simp add: ilog2_def e_def a_def)
  from bitlen_bounds [OF apos] have lo: "2 ^ nat e \<le> a" and hi: "a < 2 ^ nat (bitlen a)"
    by (simp_all add: e_def)
  have "(2::int) ^ 53 < 2 ^ nat (bitlen a)" using a53 hi by simp
  then have "53 < nat (bitlen a)" by (rule power_less_imp_less_exp [rotated]) simp
  then have e53: "53 \<le> e" by (simp add: e_def)
  define k where "k = nat (e - 52)"
  have ek: "nat e = 52 + k" using e53 by (simp add: k_def)
  have u: "pow2 (max e (- 1022) - 52) = 2 ^ k"
    using e53 by (simp add: pow2_def k_def max_def)
  have upos: "(0::rat) < 2 ^ k" by simp
  have "(2::rat) ^ nat e = rat_of_int (2 ^ nat e)" by simp
  also have "\<dots> \<le> rat_of_int a" using lo by (simp only: of_int_le_iff)
  also have "\<dots> \<le> x" by (rule ax)
  finally have "(2::rat) ^ (52 + k) \<le> x" by (simp only: ek)
  then have "(2::rat) ^ 52 * 2 ^ k \<le> x" by (simp add: power_add)
  then have "(2::rat) ^ 52 \<le> x / 2 ^ k" using upos by (simp add: pos_le_divide_eq)
  then have "(2::int) ^ 52 \<le> \<lfloor>x / 2 ^ k\<rfloor>" by (subst le_floor_iff) simp
  then have r: "(2::int) ^ 52 \<le> round_even (x / 2 ^ k)"
    by (rule order_trans [OF _ round_even_ge_floor])
  have flx: "fl x = of_int (round_even (x / 2 ^ k)) * 2 ^ k"
    using xpos by (simp add: fl_def il u Let_def)
  have "rat_of_int (2 ^ 52) \<le> of_int (round_even (x / 2 ^ k))"
    using r by (simp only: of_int_le_iff)
  then have Rge: "(2::rat) ^ 52 \<le> of_int (round_even (x / 2 ^ k))" by simp
  have "1 \<le> k" using e53 by (simp add: k_def)
  then have "(2::rat) ^ 1 \<le> 2 ^ k" by (intro power_increasing) simp_all
  then have Uge: "(2::rat) \<le> 2 ^ k" by simp
  have Rpos: "(0::rat) \<le> of_int (round_even (x / 2 ^ k))"
    by (rule order_trans [OF _ Rge]) simp
  have "(2::rat) ^ 52 * 2 \<le> of_int (round_even (x / 2 ^ k)) * 2 ^ k"
    by (rule mult_mono [OF Rge Uge Rpos]) simp
  then show ?thesis by (simp add: flx)
qed

text \<open>
  The sum of the time value of a date and \<open>step\<close>, as a sum of doubles, is the exact
  sum: the loop may add \<open>step\<close> exactly.
\<close>

lemma step_exact:
  "\<bar>c\<bar> \<le> maxTime \<Longrightarrow> fl (of_int c + of_int step) = of_int (c + step)"
proof -
  assume "\<bar>c\<bar> \<le> maxTime"
  then have "\<bar>c + step\<bar> < 2 ^ 53"
    by (simp add: maxTime_def step_def)
  from fl_int [OF this] show ?thesis by simp
qed

lemma toInteger_of_int: "toInteger (of_int n) = n"
  by (simp add: toInteger_def)


text \<open>
  A whole duration \<open>D\<close>: the test of the loop compares the exact sum, and the end of the
  slot is the exact sum.
\<close>

lemma sum_int_exact:
  assumes "\<bar>e\<bar> \<le> maxTime" and "- maxTime \<le> c + D"
    and "fl (of_int c + of_int D) \<le> of_int e \<or> c + D \<le> e"
  shows "fl (of_int c + of_int D) = of_int (c + D)" and "c + D \<le> e"
proof -
  have conv: "rat_of_int c + rat_of_int D = of_int (c + D)" by simp
  have e53: "rat_of_int e < 2 ^ 53" "e < 2 ^ 53"
    using assms(1) by (simp_all add: maxTime_def)
  have small: "c + D < 2 ^ 53"
  proof (rule ccontr)
    assume "\<not> c + D < 2 ^ 53"
    then have big: "2 ^ 53 \<le> c + D" by simp
    then have "rat_of_int (2 ^ 53) \<le> of_int (c + D)"
      by (simp only: of_int_le_iff)
    then have "(2::rat) ^ 53 \<le> of_int (c + D)" by simp
    from fl_ge [OF this] have "(2::rat) ^ 53 \<le> fl (of_int (c + D))" .
    with e53 have "\<not> fl (of_int (c + D)) \<le> of_int e" by simp
    moreover from big e53 have "\<not> c + D \<le> e" by simp
    ultimately show False using assms(3) by (simp only: conv) blast
  qed
  then have "\<bar>c + D\<bar> < 2 ^ 53"
    using assms(2) by (simp add: maxTime_def)
  from fl_int [OF this] show exact: "fl (of_int c + of_int D) = of_int (c + D)"
    by (simp only: conv)
  from assms(3) show "c + D \<le> e"
    by (simp only: exact of_int_le_iff) blast
qed

lemma le_time_int:
  assumes "\<bar>e\<bar> \<le> maxTime" and "- maxTime \<le> c + D"
  shows "le_time (plus_duration (Some c) (Fin (of_int D))) (Some e) \<longleftrightarrow> c + D \<le> e"
proof
  assume "le_time (plus_duration (Some c) (Fin (of_int D))) (Some e)"
  then have "fl (of_int c + of_int D) \<le> of_int e"
    by (simp add: le_time_def plus_duration_def)
  then show "c + D \<le> e"
    using sum_int_exact(2) [OF assms] by blast
next
  assume le: "c + D \<le> e"
  then have "fl (of_int c + of_int D) = of_int (c + D)"
    using sum_int_exact(1) [OF assms] by blast
  then show "le_time (plus_duration (Some c) (Fin (of_int D))) (Some e)"
    using le by (simp add: le_time_def plus_duration_def)
qed

lemma dateOfNumber_int:
  assumes "\<bar>e\<bar> \<le> maxTime" and "- maxTime \<le> c + D" and "c + D \<le> e"
  shows "dateOfNumber (plus_duration (Some c) (Fin (of_int D))) = Some (c + D)"
proof -
  have exact: "fl (of_int c + of_int D) = of_int (c + D)"
    using sum_int_exact(1) [OF assms(1,2)] assms(3) by blast
  have "\<bar>c + D\<bar> \<le> maxTime"
    using assms by simp
  then have "\<bar>rat_of_int (c + D)\<bar> \<le> of_int maxTime"
    by (simp only: of_int_abs [symmetric] of_int_le_iff)
  then show ?thesis
    by (simp only: dateOfNumber_def plus_duration_def exact toInteger_of_int
          option.case jsnum.case if_True)
qed

section \<open>Soundness of the free-slot search\<close>

text \<open>One step of the loop, case by case.\<close>

lemma findFreeSlots_loop_stop:
  "\<not> le_time (plus_duration (getTime cur) d) (getTime we) \<Longrightarrow>
   findFreeSlots_loop tza we d evs bho cur acc = acc"
  by (rule trans [OF findFreeSlots_loop.simps]) simp

lemma findFreeSlots_loop_skip:
  "le_time (plus_duration (getTime cur) d) (getTime we) \<Longrightarrow>
   bho \<and> (num_lt (getHours tza cur) (Some 9) \<or> num_ge (getHours tza cur) (Some 17)) \<Longrightarrow>
   findFreeSlots_loop tza we d evs bho cur acc =
   findFreeSlots_loop tza we d evs bho (dateOfTime (num_add (getTime cur) (Some step))) acc"
  by (rule trans [OF findFreeSlots_loop.simps]) simp

lemma findFreeSlots_loop_take:
  "le_time (plus_duration (getTime cur) d) (getTime we) \<Longrightarrow>
   \<not> (bho \<and> (num_lt (getHours tza cur) (Some 9) \<or> num_ge (getHours tza cur) (Some 17))) \<Longrightarrow>
   findFreeSlots_loop tza we d evs bho cur acc =
   findFreeSlots_loop tza we d evs bho (dateOfTime (num_add (getTime cur) (Some step)))
     (if isFree \<lparr>slot_start = dateOfTime (getTime cur),
                 slot_end = dateOfNumber (plus_duration (getTime cur) d)\<rparr> evs
      then acc @ [\<lparr>slot_start = dateOfTime (getTime cur),
                   slot_end = dateOfNumber (plus_duration (getTime cur) d)\<rparr>] else acc)"
  by (rule trans [OF findFreeSlots_loop.simps]) (auto simp: Let_def)

lemma validDate_dateOfTime: "validDate (dateOfTime t)"
  by (simp add: validDate_def dateOfTime_def split: option.splits)

lemma dateOfTime_valid: "validDate d \<Longrightarrow> dateOfTime (getTime d) = d"
  by (auto simp: validDate_def dateOfTime_def getTime_def split: option.splits)

lemma le_time_Some:
  "le_time (plus_duration (getTime cur) d) (getTime we) \<Longrightarrow> \<exists>c e. cur = Some c \<and> we = Some e"
  by (auto simp: le_time_def plus_duration_def getTime_def split: option.splits)

lemma findFreeSlots_loop_None: "findFreeSlots_loop tza we d evs bho None acc = acc"
  by (rule findFreeSlots_loop_stop)
    (simp add: le_time_def plus_duration_def getTime_def split: option.splits)



lemma findFreeSlots_loop_grid:
  "(\<forall>s\<in>set acc. onGrid ws s) \<Longrightarrow> cur = None \<or> cur = Some (t + int j * step) \<Longrightarrow>
   validDate cur \<Longrightarrow> ws = Some t \<Longrightarrow>
   \<forall>s\<in>set (findFreeSlots_loop tza we d evs bho cur acc). onGrid ws s"
proof (induction tza we d evs bho cur acc arbitrary: j rule: findFreeSlots_loop.induct)
  case (1 tza we d evs bho cur acc)
  note nextValid = validDate_dateOfTime [of "num_add (getTime cur) (Some step)"]
  show ?case
  proof (cases "le_time (plus_duration (getTime cur) d) (getTime we)")
    case False
    show ?thesis
      using "1.prems"(1) by (simp only: findFreeSlots_loop_stop [OF False])
  next
    case inrange: True
    then obtain c where c: "cur = Some c"
      using le_time_Some by blast
    with "1.prems"(2) have cj: "c = t + int j * step" by simp
    have next_cur: "dateOfTime (num_add (getTime cur) (Some step)) = None
        \<or> dateOfTime (num_add (getTime cur) (Some step)) = Some (t + int (Suc j) * step)"
      by (simp add: dateOfTime_def num_add_def getTime_def c cj algebra_simps)
    show ?thesis
    proof (cases "bho \<and> (num_lt (getHours tza cur) (Some 9) \<or> num_ge (getHours tza cur) (Some 17))")
      case True
      show ?thesis
        using "1.IH"(1) [OF inrange True "1.prems"(1) next_cur nextValid "1.prems"(4)]
        by (simp only: findFreeSlots_loop_skip [OF inrange True])
    next
      case False
      define slot where "slot = \<lparr>slot_start = dateOfTime (getTime cur),
                                 slot_end = dateOfNumber (plus_duration (getTime cur) d)\<rparr>"
      have "slot_start slot = Some (t + int j * step)"
        using dateOfTime_valid [OF "1.prems"(3)] by (simp add: slot_def c cj)
      then have "onGrid ws slot"
        using "1.prems"(4) by (auto simp: onGrid_def)
      then have acc': "\<forall>s\<in>set (if isFree slot evs then acc @ [slot] else acc). onGrid ws s"
        using "1.prems"(1) by auto
      show ?thesis
        using "1.IH"(2) [OF inrange False slot_def acc' next_cur nextValid "1.prems"(4)]
        by (simp only: findFreeSlots_loop_take [OF inrange False] slot_def)
    qed
  qed
qed

lemma findFreeSlots_on_grid:
  assumes "s \<in> set (findFreeSlots tza ws we d evs bho)"
  shows "\<exists>t k. ws = Some t \<and> slot_start s = Some (t + int k * step)"
proof (cases "dateOfTime (getTime ws)")
  case None
  then have "findFreeSlots tza ws we d evs bho = []"
    by (simp add: findFreeSlots_def findFreeSlots_loop_None)
  with assms show ?thesis by simp
next
  case (Some t)
  then have ws: "ws = Some t"
    by (auto simp: dateOfTime_def getTime_def split: option.splits if_splits)
  have "\<forall>s\<in>set (findFreeSlots_loop tza we d evs bho (dateOfTime (getTime ws)) []). onGrid ws s"
  proof (rule findFreeSlots_loop_grid [where j = 0 and t = t])
    show "dateOfTime (getTime ws) = None \<or> dateOfTime (getTime ws) = Some (t + int 0 * step)"
      using Some by simp
  qed (simp_all add: ws validDate_dateOfTime)
  then show ?thesis
    using assms by (simp add: findFreeSlots_def onGrid_def)
qed




section \<open>The grid of the free-slot search\<close>

text \<open>
  Claim C10: every slot that \<open>findFreeSlots\<close> returns starts at the start of the window
  plus a whole number \<open>k \<ge> 0\<close> of steps of 30 minutes.  The grid is anchored at the
  start of the window, and a candidate skipped for business hours advances by one step
  like any other.
\<close>

theorem findFreeSlots_grid:
  assumes "s \<in> set (findFreeSlots tza windowStart windowEnd duration occurrences businessHoursOnly)"
  shows "\<exists>t k. windowStart = Some t \<and> slot_start s = Some (t + int k * step)"
  using assms by (rule findFreeSlots_on_grid)

text \<open>
  A window that starts at 08:15 UTC: the candidates at 08:15 and 08:45 are skipped, and the
  first slot starts at 09:15, two steps after the start of the window.
\<close>

theorem findFreeSlots_grid_witness:
  "\<lparr>slot_start = Some 33300000, slot_end = Some 36900000\<rparr>
     \<in> set (findFreeSlots (\<lambda>_. 0) (Some 29700000) (Some 43200000) (Fin 3600000) [] True)
   \<and> (\<exists>t k. Some 29700000 = Some t \<and> Some 33300000 = Some (t + int k * step))"
proof -
  have mem: "\<lparr>slot_start = Some 33300000, slot_end = Some 36900000\<rparr>
     \<in> set (findFreeSlots (\<lambda>_. 0) (Some 29700000) (Some 43200000) (Fin 3600000) [] True)"
    by code_simp
  from findFreeSlots_grid [OF mem] mem show ?thesis by simp
qed

section \<open>Completeness of the free-slot search on an empty calendar\<close>

lemma findFreeSlots_loop_all:
  "cur = Some c \<Longrightarrow> \<bar>c\<bar> \<le> maxTime \<Longrightarrow> we = Some e \<Longrightarrow> \<bar>e\<bar> \<le> maxTime \<Longrightarrow>
   d = Fin (of_int D) \<Longrightarrow> 0 < D \<Longrightarrow> evs = [] \<Longrightarrow> \<not> bho \<Longrightarrow>
   findFreeSlots_loop tza we d evs bho cur acc =
   acc @ map (slotAt c D) [0..<nat ((e - c - D) div step + 1)]"
proof (induction tza we d evs bho cur acc arbitrary: c rule: findFreeSlots_loop.induct)
  case (1 tza we d evs bho cur acc)
  have low: "- maxTime \<le> c + D"
    using "1.prems"(2,6) by simp
  have test: "le_time (plus_duration (getTime cur) d) (getTime we) \<longleftrightarrow> c + D \<le> e"
    using le_time_int [OF "1.prems"(4) low] by (simp add: "1.prems"(1,3,5) getTime_def)
  show ?case
  proof (cases "le_time (plus_duration (getTime cur) d) (getTime we)")
    case False
    then have "e - c - D < 0"
      using test by simp
    then have "(e - c - D) div step + 1 \<le> 0"
      by (simp add: step_def)
    then show ?thesis
      by (simp add: findFreeSlots_loop_stop [OF False])
  next
    case inrange: True
    then have le: "c + D \<le> e" using test by simp
    then have ge: "0 \<le> e - c - D" by simp
    have nobh: "\<not> (bho \<and> (num_lt (getHours tza cur) (Some 9) \<or> num_ge (getHours tza cur) (Some 17)))"
      using "1.prems" by simp
    define slot where "slot = \<lparr>slot_start = dateOfTime (getTime cur),
                               slot_end = dateOfNumber (plus_duration (getTime cur) d)\<rparr>"
    have free: "isFree slot evs" using "1.prems" by (simp add: isFree_iff)
    have "slot_end slot = Some (c + D)"
      using dateOfNumber_int [OF "1.prems"(4) low le]
      by (simp add: slot_def "1.prems"(1,5) getTime_def)
    moreover have "slot_start slot = Some c"
      using "1.prems"(2) by (simp add: slot_def "1.prems"(1) getTime_def dateOfTime_def)
    ultimately have slot0: "slot = slotAt c D 0"
      by (simp add: slotAt_def)
    define m where "m = nat ((e - (c + step) - D) div step + 1)"
    have cnt: "nat ((e - c - D) div step + 1) = Suc m"
      using ge by (simp add: step_def m_def)
    have shift: "map (slotAt (c + step) D) [0..<n] = map (slotAt c D) [Suc 0..<Suc n]" for n
      by (simp add: slotAt_def map_Suc_upt [symmetric] algebra_simps del: upt_Suc)
    have unfold: "findFreeSlots_loop tza we d evs bho cur acc =
          findFreeSlots_loop tza we d evs bho (dateOfTime (num_add (getTime cur) (Some step)))
            (acc @ [slot])"
      using free by (simp only: findFreeSlots_loop_take [OF inrange nobh] slot_def if_True)
    have rest: "findFreeSlots_loop tza we d evs bho (dateOfTime (num_add (getTime cur) (Some step)))
            (acc @ [slot]) = (acc @ [slot]) @ map (slotAt (c + step) D) [0..<m]"
    proof (cases "c + step \<le> maxTime")
      case True
      then have next_cur: "dateOfTime (num_add (getTime cur) (Some step)) = Some (c + step)"
        using "1.prems"(2)
        by (simp add: dateOfTime_def num_add_def getTime_def "1.prems"(1) step_def)
      have next_valid: "\<bar>c + step\<bar> \<le> maxTime"
        using True "1.prems"(2) by (simp add: step_def)
      from "1.IH"(2) [OF inrange nobh slot_def next_cur next_valid "1.prems"(3,4,5,6,7,8)] free
      show ?thesis by (simp add: m_def)
    next
      case False
      then have "dateOfTime (num_add (getTime cur) (Some step)) = None"
        by (simp add: dateOfTime_def num_add_def getTime_def "1.prems"(1) step_def)
      moreover have "m = 0"
        using False "1.prems"(4,6) by (simp add: m_def step_def)
      ultimately show ?thesis
        by (simp add: findFreeSlots_loop_None)
    qed
    have "[0..<Suc m] = 0 # [Suc 0..<Suc m]"
      by (rule upt_conv_Cons) simp
    then have "map (slotAt c D) [0..<Suc m] = slot # map (slotAt (c + step) D) [0..<m]"
      by (simp only: list.map shift slot0)
    then show ?thesis
      by (simp only: unfold rest cnt append_assoc append_Cons append_Nil)
  qed
qed

text \<open>
  Claim C7, as stated, gives the number of slots for every duration that fits the window.
  With a duration of \<open>60000.0001\<close> milliseconds (as a double) in a window of 3660000
  milliseconds, the candidate that starts 3600000 after the start of the window is
  accepted: the sum of its start and the duration rounds to the end of the window.  Three
  slots are returned, and the formula gives two.
\<close>

theorem findFreeSlots_count_counterexample:
  "length (findFreeSlots (\<lambda>_. 0) (Some 1705312800000) (Some 1705316460000)
       (Fin (60000 + 13743895 / 2 ^ 37)) [] False) = 3
   \<and> \<lfloor>(rat_of_int (1705316460000 - 1705312800000) - (60000 + 13743895 / 2 ^ 37))
        / rat_of_int step\<rfloor> + 1 = 2
   \<and> (0::rat) < 60000 + 13743895 / 2 ^ 37
   \<and> (60000 + 13743895 / 2 ^ 37 :: rat) \<le> rat_of_int (1705316460000 - 1705312800000)"
  by code_simp

text \<open>
  Claim C7, amended: with no occurrences, without the business-hours filter and with a
  duration that is a whole number of milliseconds, \<open>0 < duration \<le> windowEnd - windowStart\<close>,
  \<open>findFreeSlots\<close> returns exactly \<open>floor((windowEnd - windowStart - duration) / 30 min) + 1\<close>
  slots, in chronological order, the \<open>k\<close>-th starting at \<open>windowStart + k * 30 min\<close>;
  adjacent slots are not merged.  (The bounds of the window are dates: their time values
  are at most 8.64e15 in magnitude.)
\<close>

theorem findFreeSlots_complete:
  assumes "0 < duration" and "duration \<le> windowEnd - windowStart"
    and "\<bar>windowStart\<bar> \<le> maxTime" and "\<bar>windowEnd\<bar> \<le> maxTime"
  shows "findFreeSlots tza (Some windowStart) (Some windowEnd) (Fin (of_int duration)) [] False =
           map (\<lambda>k. \<lparr>slot_start = Some (windowStart + int k * step),
                       slot_end = Some (windowStart + int k * step + duration)\<rparr>)
               [0..<nat ((windowEnd - windowStart - duration) div step + 1)]
         \<and> int (length (findFreeSlots tza (Some windowStart) (Some windowEnd)
                          (Fin (of_int duration)) [] False)) =
             (windowEnd - windowStart - duration) div step + 1"
proof -
  have start: "dateOfTime (getTime (Some windowStart)) = Some windowStart"
    using assms(3) by (simp add: dateOfTime_def getTime_def)
  have eq: "findFreeSlots tza (Some windowStart) (Some windowEnd) (Fin (of_int duration)) [] False =
        map (slotAt windowStart duration) [0..<nat ((windowEnd - windowStart - duration) div step + 1)]"
    using findFreeSlots_loop_all [OF start assms(3) refl assms(4) refl assms(1) refl,
        of False tza "[]"]
    by (simp add: findFreeSlots_def)
  have "0 \<le> (windowEnd - windowStart - duration) div step"
    using assms by (simp add: step_def pos_imp_zdiv_nonneg_iff)
  then show ?thesis
    unfolding eq by (simp add: slotAt_def)
qed

theorem findFreeSlots_complete_witness:
  "(0::int) < 3600000 \<and> (3600000::int) \<le> 7200000 - 0
   \<and> \<bar>0::int\<bar> \<le> maxTime \<and> \<bar>7200000::int\<bar> \<le> maxTime
   \<and> int (length (findFreeSlots (\<lambda>_. 0) (Some 0) (Some 7200000) (Fin (of_int 3600000)) [] False)) = 3"
  using findFreeSlots_complete [of 3600000 7200000 0 "\<lambda>_. 0"]
  by (simp add: step_def maxTime_def)

section \<open>The optimal slot\<close>

text \<open>The head of a stable sort is the first element of the list with the least key.\<close>


lemma find_filter_conv:
  "List.find P xs = (case filter P xs of [] \<Rightarrow> None | x # _ \<Rightarrow> Some x)"
  by (induction xs) auto

lemma hd_sort_key_stable:
  assumes "xs \<noteq> []"
  shows "\<exists>y ys. sort_key f xs = y # ys \<and> y \<in> set xs \<and> (\<forall>z\<in>set xs. f y \<le> f z)
           \<and> hd (filter (\<lambda>z. f z = f y) xs) = y"
proof -
  have sets: "set (sort_key f xs) = set xs" by simp
  have "sort_key f xs \<noteq> []"
  proof
    assume empty: "sort_key f xs = []"
    have "length (sort_key f xs) = length xs" by (rule length_sort)
    with empty assms show False by simp
  qed
  then obtain y ys where eq: "sort_key f xs = y # ys"
    by (cases "sort_key f xs") auto
  have "sorted (map f (sort_key f xs))" by (rule sorted_sort_key)
  then have le: "\<forall>z\<in>set (sort_key f xs). f y \<le> f z"
    unfolding eq by auto
  have "filter (\<lambda>z. f z = f y) xs = filter (\<lambda>z. f z = f y) (sort_key f xs)"
    by (rule sort_key_stable [symmetric])
  also have "\<dots> = y # filter (\<lambda>z. f z = f y) ys"
    by (simp add: eq)
  finally have hd: "hd (filter (\<lambda>z. f z = f y) xs) = y"
    by simp
  have "y \<in> set (sort_key f xs)" unfolding eq by simp
  then have mem: "y \<in> set xs" using sets by simp
  show ?thesis using eq le hd mem sets by auto
qed

lemma Max_score:
  assumes "y \<in> set xs" and "\<forall>z\<in>set xs. g z \<le> g y"
  shows "Max (g ` set xs) = (g y :: int)"
  using assms by (intro Max_eqI) auto

text \<open>
  Claim C2: \<open>findOptimalSlot\<close> returns none exactly when no candidate is free against the
  occurrences.  With the preferred hours absent or empty it returns the first free
  candidate in the order of the list.  With preferred hours, a slot scores 1 if the local
  hour of its start is one of them and 0 otherwise, and the result is the first free
  candidate, in the order of the list, whose score is the top score among the free ones.
\<close>

theorem findOptimalSlot_spec:
  "(findOptimalSlot tza candidates occurrences preferredHours = None
      \<longleftrightarrow> (\<forall>s\<in>set candidates. \<not> isFree s occurrences))
   \<and> (preferredHours = None \<or> preferredHours = Some [] \<longrightarrow>
        findOptimalSlot tza candidates occurrences preferredHours
          = List.find (\<lambda>s. isFree s occurrences) candidates)
   \<and> (\<forall>prefs. preferredHours = Some prefs \<and> prefs \<noteq> [] \<longrightarrow>
        (\<forall>s. score tza prefs s =
               (if \<exists>h. getHours tza (slot_start s) = Some h \<and> h \<in> set prefs then 1 else 0))
        \<and> findOptimalSlot tza candidates occurrences preferredHours
          = List.find (\<lambda>s. isFree s occurrences
                 \<and> score tza prefs s
                     = Max (score tza prefs ` {c \<in> set candidates. isFree c occurrences}))
              candidates)"
proof -
  define free where "free = filter (\<lambda>slot. isFree slot occurrences) candidates"
  have find_free: "List.find (\<lambda>s. isFree s occurrences) candidates
                   = (case free of [] \<Rightarrow> None | x # _ \<Rightarrow> Some x)"
    by (simp add: find_filter_conv free_def)
  have set_free: "set free = {c \<in> set candidates. isFree c occurrences}"
    by (auto simp: free_def)
  have none: "findOptimalSlot tza candidates occurrences preferredHours = None
      \<longleftrightarrow> (\<forall>s\<in>set candidates. \<not> isFree s occurrences)"
    by (auto simp: findOptimalSlot_def Let_def filter_empty_conv split: option.splits)
  have first: "findOptimalSlot tza candidates occurrences preferredHours
          = List.find (\<lambda>s. isFree s occurrences) candidates"
    if "preferredHours = None \<or> preferredHours = Some []"
    using that unfolding find_free
    by (cases free) (auto simp: findOptimalSlot_def Let_def free_def [symmetric])
  have scored: "findOptimalSlot tza candidates occurrences (Some prefs)
          = List.find (\<lambda>s. isFree s occurrences
                 \<and> score tza prefs s
                     = Max (score tza prefs ` {c \<in> set candidates. isFree c occurrences}))
              candidates" (is "?lhs = ?rhs")
    if ne: "prefs \<noteq> []" for prefs
  proof (cases "free = []")
    case True
    then have "\<forall>s\<in>set candidates. \<not> isFree s occurrences"
      by (simp add: free_def filter_empty_conv)
    then have "?rhs = None" by (auto simp: find_None_iff)
    moreover have "?lhs = None"
      using True by (simp add: findOptimalSlot_def Let_def free_def [symmetric])
    ultimately show ?thesis by simp
  next
    case False
    define f where "f = (\<lambda>p :: TimeSlot \<times> int. - snd p)"
    define scoredSlots where "scoredSlots = map (\<lambda>slot. (slot, score tza prefs slot)) free"
    have "scoredSlots \<noteq> []" using False by (simp add: scoredSlots_def)
    from hd_sort_key_stable [OF this, of f]
    obtain y ys where srt: "sort_key f scoredSlots = y # ys" and ymem: "y \<in> set scoredSlots"
      and ymin: "\<forall>z\<in>set scoredSlots. f y \<le> f z"
      and yhd: "hd (filter (\<lambda>z. f z = f y) scoredSlots) = y"
      by blast
    from ymem obtain s where s: "s \<in> set free" and y: "y = (s, score tza prefs s)"
      by (auto simp: scoredSlots_def)
    have top: "\<forall>z\<in>set free. score tza prefs z \<le> score tza prefs s"
      using ymin by (auto simp: scoredSlots_def f_def y)
    have mx: "Max (score tza prefs ` set free) = score tza prefs s"
      using s top by (rule Max_score)
    define top_free where "top_free = filter (\<lambda>z. score tza prefs z = score tza prefs s) free"
    have fm: "filter (\<lambda>z. f z = f y) scoredSlots
            = map (\<lambda>slot. (slot, score tza prefs slot)) top_free"
      by (simp add: scoredSlots_def filter_map o_def f_def y top_free_def)
    have tne: "top_free \<noteq> []"
      using s by (auto simp: filter_empty_conv top_free_def)
    have "y = hd (map (\<lambda>slot. (slot, score tza prefs slot)) top_free)"
      using yhd fm by simp
    then have "y = (hd top_free, score tza prefs (hd top_free))"
      using tne by (simp add: hd_map)
    then have fy: "fst y = hd top_free" by simp
    have tf: "top_free
        = filter (\<lambda>s'. isFree s' occurrences \<and> score tza prefs s' = score tza prefs s) candidates"
      by (simp add: top_free_def free_def conj_commute)
    have rhs: "?rhs = Some (fst y)"
      using tne fy
      by (simp add: find_filter_conv set_free [symmetric] mx tf [symmetric] split: list.splits)
    have sorted_hd: "fst (sort_key f scoredSlots ! 0) = fst y"
      by (simp add: srt)
    have lhs: "?lhs = Some (fst y)"
    proof (cases "length free = 1")
      case True
      then obtain x where fx: "free = [x]"
        by (cases free) auto
      then have "s = x" using s by simp
      then show ?thesis
        using fx by (simp add: findOptimalSlot_def Let_def free_def [symmetric] y)
    next
      case many: False
      then show ?thesis
        using False ne sorted_hd
        by (simp add: findOptimalSlot_def Let_def free_def [symmetric] scoredSlots_def [symmetric]
              f_def [symmetric])
    qed
    show ?thesis using lhs rhs by simp
  qed
  have sc: "score tza prefs s =
               (if \<exists>h. getHours tza (slot_start s) = Some h \<and> h \<in> set prefs then 1 else 0)" for prefs s
    by (auto simp: score_def includes_hour_def split: option.splits)
  show ?thesis
    using none first scored sc by blast
qed


text \<open>
  The candidates 09:00 and 14:00 (UTC), both free against an occurrence from 10:00 to
  11:00, with the preferred hours 9 and 14: both score 1, and 09:00 is returned.
\<close>

theorem findOptimalSlot_spec_witness:
  "findOptimalSlot (\<lambda>_. 0)
      [\<lparr>slot_start = Some 32400000, slot_end = Some 36000000\<rparr>,
       \<lparr>slot_start = Some 50400000, slot_end = Some 54000000\<rparr>]
      [\<lparr>uid = ''u'', summary = ''m'', startDate = Some 36000000, endDate = Some 39600000,
        location = None, description = None, calendar = None\<rparr>]
      (Some [9, 14])
     = Some \<lparr>slot_start = Some 32400000, slot_end = Some 36000000\<rparr>
   \<and> \<not> (\<forall>s\<in>set [\<lparr>slot_start = Some 32400000, slot_end = Some 36000000\<rparr>,
                     \<lparr>slot_start = Some 50400000, slot_end = Some 54000000\<rparr>].
          \<not> isFree s [\<lparr>uid = ''u'', summary = ''m'', startDate = Some 36000000,
                         endDate = Some 39600000, location = None, description = None,
                         calendar = None\<rparr>])
   \<and> List.find (\<lambda>s. isFree s [\<lparr>uid = ''u'', summary = ''m'', startDate = Some 36000000,
                         endDate = Some 39600000, location = None, description = None,
                         calendar = None\<rparr>]
          \<and> score (\<lambda>_. 0) [9, 14] s
              = Max (score (\<lambda>_. 0) [9, 14] `
                  {c \<in> set [\<lparr>slot_start = Some 32400000, slot_end = Some 36000000\<rparr>,
                             \<lparr>slot_start = Some 50400000, slot_end = Some 54000000\<rparr>].
                   isFree c [\<lparr>uid = ''u'', summary = ''m'', startDate = Some 36000000,
                         endDate = Some 39600000, location = None, description = None,
                         calendar = None\<rparr>]}))
        [\<lparr>slot_start = Some 32400000, slot_end = Some 36000000\<rparr>,
         \<lparr>slot_start = Some 50400000, slot_end = Some 54000000\<rparr>]
     = Some \<lparr>slot_start = Some 32400000, slot_end = Some 36000000\<rparr>"
  (is "?L = ?R \<and> \<not> ?B \<and> ?F = _")
proof -
  have ev: "?L = ?R"
    by code_simp
  note spec = findOptimalSlot_spec [of "\<lambda>_. 0"
      "[\<lparr>slot_start = Some 32400000, slot_end = Some 36000000\<rparr>,
       \<lparr>slot_start = Some 50400000, slot_end = Some 54000000\<rparr>]"
      "[\<lparr>uid = ''u'', summary = ''m'', startDate = Some 36000000, endDate = Some 39600000,
        location = None, description = None, calendar = None\<rparr>]"
      "Some [9, 14]"]
  from spec have none: "?L = None \<longleftrightarrow> ?B"
    by (rule conjunct1)
  from spec have top: "?L = ?F"
    by blast
  from none ev have "\<not> ?B" by simp
  moreover from top ev have "?F = ?R" by simp
  ultimately show ?thesis using ev by blast
qed

section \<open>Meeting density\<close>








section \<open>Grouping by day\<close>

text \<open>The date part of the ISO string holds no \<open>T\<close>, so the key is the whole date.\<close>


lemma digit_not_T: "digit n \<noteq> CHR ''T''"
proof -
  have "n mod 10 < 10" by simp
  then have "n mod 10 \<in> {0, 1, 2, 3, 4, 5, 6, 7, 8, 9}" by simp arith
  then show ?thesis
    by (auto simp: digit_def)
qed

lemma digits_no_T: "CHR ''T'' \<notin> set (digits n)"
proof (induction n rule: digits.induct)
  case (1 n)
  then show ?case
    by (subst digits.simps) (auto simp: digit_not_T digit_not_T [THEN not_sym])
qed

lemma padStart_no_T: "CHR ''T'' \<notin> set s \<Longrightarrow> CHR ''T'' \<notin> set (padStart w s)"
  by (auto simp: padStart_def)

lemma yearString_no_T: "CHR ''T'' \<notin> set (yearString y)"
  by (auto simp: yearString_def padStart_no_T digits_no_T)

lemma isoDate_no_T: "CHR ''T'' \<notin> set (isoDate t)"
  by (auto simp: isoDate_def padStart_no_T digits_no_T yearString_no_T split: prod.splits)

lemma isoDate_nonempty: "isoDate t \<noteq> []"
  by (simp add: isoDate_def split: prod.splits)

lemma toISOString_date:
  "\<exists>rest. toISOString (Some t) = Some (isoDate t @ CHR ''T'' # rest)"
  by (simp add: toISOString_def isoDate_def Let_def split: prod.splits)

lemma split0_append: "c \<notin> set xs \<Longrightarrow> split0 c (xs @ c # ys) = xs"
  by (induction xs) (auto simp: split0_def)

lemma split0_isoDate:
  "toISOString (Some t) = Some isoString \<Longrightarrow> split0 (CHR ''T'') isoString = isoDate t"
proof -
  assume a: "toISOString (Some t) = Some isoString"
  obtain rest where "toISOString (Some t) = Some (isoDate t @ CHR ''T'' # rest)"
    using toISOString_date by blast
  with a have "isoString = isoDate t @ CHR ''T'' # rest" by simp
  then show ?thesis
    using isoDate_no_T [of t] by (simp add: split0_append)
qed

lemma dateKeyOf_valid: "startDate e = Some t \<Longrightarrow> dateKeyOf e = isoDate t"
proof -
  assume s: "startDate e = Some t"
  obtain rest where r: "toISOString (Some t) = Some (isoDate t @ CHR ''T'' # rest)"
    using toISOString_date by blast
  show ?thesis
    using split0_isoDate [OF r] by (simp add: dateKeyOf_def s r)
qed


lemma mset_update_append:
  "mset (concat (map snd (AList.update k ((case map_of g k of Some es \<Rightarrow> es | None \<Rightarrow> []) @ [e]) g)))
     = mset (concat (map snd g)) + {#e#}"
  by (induction g) auto

lemma groupEventsByDay_loop_step:
  assumes "startDate e = Some t"
  shows "groupEventsByDay_loop (e # rest) g =
         groupEventsByDay_loop rest
           (AList.update (dateKeyOf e)
              ((case map_of g (dateKeyOf e) of Some es \<Rightarrow> es | None \<Rightarrow> []) @ [e]) g)"
proof -
  obtain r where r: "toISOString (Some t) = Some (isoDate t @ CHR ''T'' # r)"
    using toISOString_date by blast
  have key: "split0 (CHR ''T'') (isoDate t @ CHR ''T'' # r) = isoDate t"
    using split0_isoDate [OF r] .
  show ?thesis
    by (simp add: assms r key dateKeyOf_def isoDate_nonempty Let_def)
qed

lemma groupEventsByDay_loop_valid:
  assumes "\<forall>e\<in>set events. startDate e \<noteq> None"
  shows "\<exists>g'. groupEventsByDay_loop events g = Inr g'
     \<and> (distinct (map fst g) \<longrightarrow> distinct (map fst g'))
     \<and> (\<forall>k. map_of g' k =
           (if filter (\<lambda>e. dateKeyOf e = k) events = [] then map_of g k
            else Some ((case map_of g k of Some es \<Rightarrow> es | None \<Rightarrow> [])
                       @ filter (\<lambda>e. dateKeyOf e = k) events)))
     \<and> mset (concat (map snd g')) = mset (concat (map snd g)) + mset events"
  using assms
proof (induction events arbitrary: g)
  case Nil
  then show ?case by simp
next
  case (Cons e rest)
  then obtain t where t: "startDate e = Some t" by auto
  define old where "old = (case map_of g (dateKeyOf e) of Some es \<Rightarrow> es | None \<Rightarrow> [])"
  define g1 where "g1 = AList.update (dateKeyOf e) (old @ [e]) g"
  have step: "groupEventsByDay_loop (e # rest) g = groupEventsByDay_loop rest g1"
    by (simp only: groupEventsByDay_loop_step [OF t] g1_def old_def)
  from Cons.prems have "\<forall>e\<in>set rest. startDate e \<noteq> None" by simp
  from Cons.IH [OF this, of g1] obtain g' where
    res: "groupEventsByDay_loop rest g1 = Inr g'"
    and dist: "distinct (map fst g1) \<longrightarrow> distinct (map fst g')"
    and look: "\<And>k. map_of g' k =
           (if filter (\<lambda>e. dateKeyOf e = k) rest = [] then map_of g1 k
            else Some ((case map_of g1 k of Some es \<Rightarrow> es | None \<Rightarrow> [])
                       @ filter (\<lambda>e. dateKeyOf e = k) rest))"
    and ms: "mset (concat (map snd g')) = mset (concat (map snd g1)) + mset rest"
    by blast
  have g1_look: "map_of g1 k = (if k = dateKeyOf e then Some (old @ [e]) else map_of g k)" for k
    by (simp add: g1_def update_conv')
  have "distinct (map fst g) \<longrightarrow> distinct (map fst g')"
    using dist by (simp add: g1_def distinct_update)
  moreover have "map_of g' k =
           (if filter (\<lambda>x. dateKeyOf x = k) (e # rest) = [] then map_of g k
            else Some ((case map_of g k of Some es \<Rightarrow> es | None \<Rightarrow> [])
                       @ filter (\<lambda>x. dateKeyOf x = k) (e # rest)))" for k
    by (simp add: look g1_look old_def)
  moreover have "mset (concat (map snd g')) = mset (concat (map snd g)) + mset (e # rest)"
    by (simp add: ms g1_def old_def mset_update_append)
  ultimately show ?case
    using res step by simp
qed

lemma groupEventsByDay_loop_invalid:
  assumes "\<exists>e\<in>set events. startDate e = None"
  shows "groupEventsByDay_loop events g = Inl RangeError"
  using assms
proof (induction events arbitrary: g)
  case Nil
  then show ?case by simp
next
  case (Cons e rest)
  show ?case
  proof (cases "startDate e")
    case None
    then show ?thesis by (simp add: toISOString_def)
  next
    case (Some t)
    with Cons.prems have "\<exists>e\<in>set rest. startDate e = None" by auto
    from Cons.IH [OF this] show ?thesis
      by (simp only: groupEventsByDay_loop_step [OF Some])
  qed
qed

text \<open>
  Claim C9, as stated, says that every input event is filed in a group.  An event whose
  start is an Invalid Date has no ISO string: \<open>toISOString\<close> throws, and the call returns
  no grouping at all.  \<open>listEvents\<close> produces such an event from a line whose summary
  holds the separator \<open>|\<close>: the fields shift, the start string does not parse, and the
  \<open>catch\<close> block pushes the base event.
\<close>

theorem groupEventsByDay_invalid_counterexample:
  "groupEventsByDay
     [\<lparr>uid = ''u1'', summary = ''Standup'', startDate = None, endDate = None,
       location = None, description = None, calendar = Some ''Work''\<rparr>] = Inl RangeError
   \<and> groupEventsByDay (fst (listEvents (\<lambda>_ _ _. Some [])
        (\<lambda>s. if s = ''2024-01-15T10:00:00'' then Some 1705312800000
             else if s = ''2024-01-15T10:30:00'' then Some 1705314600000 else None)
        ''Work'' (Some 1705276800000) (Some 1705363200000)
        ''u1|Stand|up|2024-01-15T10:00:00|2024-01-15T10:30:00||notes|'')) = Inl RangeError"
  by code_simp

text \<open>
  Claim C9, amended: when the start of every event is a valid date, \<open>groupEventsByDay\<close>
  partitions its input.  The keys are distinct; the list of a key is not empty and holds
  exactly the events with that key, in the order of the input; every event has its key
  among the groups, so it appears in one list only, and the lists together hold every
  event as often as the input does.  The key of an event is the calendar date (UTC) of its
  start as the ISO string writes it; the end of the event plays no part, so an event that
  spans midnight is filed under its start date only.  When the start of some event is an
  Invalid Date, the call throws a RangeError.
\<close>

theorem groupEventsByDay_partition:
  "((\<forall>e\<in>set events. startDate e \<noteq> None) \<longrightarrow>
      (\<exists>grouped. groupEventsByDay events = Inr grouped
         \<and> distinct (map fst grouped)
         \<and> (\<forall>(k, es)\<in>set grouped. es \<noteq> [] \<and> es = filter (\<lambda>e. dateKeyOf e = k) events)
         \<and> (\<forall>e\<in>set events. \<exists>es. (dateKeyOf e, es) \<in> set grouped)
         \<and> mset (concat (map snd grouped)) = mset events
         \<and> (\<forall>e\<in>set events. \<forall>t. startDate e = Some t \<longrightarrow> dateKeyOf e = isoDate t)))
   \<and> ((\<exists>e\<in>set events. startDate e = None) \<longrightarrow> groupEventsByDay events = Inl RangeError)"
proof (intro conjI impI)
  assume "\<exists>e\<in>set events. startDate e = None"
  then show "groupEventsByDay events = Inl RangeError"
    by (simp add: groupEventsByDay_def groupEventsByDay_loop_invalid)
next
  assume valid: "\<forall>e\<in>set events. startDate e \<noteq> None"
  from groupEventsByDay_loop_valid [OF valid, of "[]"] obtain grouped where
    res: "groupEventsByDay_loop events [] = Inr grouped"
    and dist: "distinct (map fst grouped)"
    and look: "\<And>k. map_of grouped k =
           (if filter (\<lambda>e. dateKeyOf e = k) events = [] then None
            else Some (filter (\<lambda>e. dateKeyOf e = k) events))"
    and ms: "mset (concat (map snd grouped)) = mset events"
    by auto
  have groups: "es \<noteq> [] \<and> es = filter (\<lambda>e. dateKeyOf e = k) events" if "(k, es) \<in> set grouped" for k es
  proof -
    from that dist have "map_of grouped k = Some es" by simp
    then show ?thesis
      by (simp add: look split: if_splits)
  qed
  have filed: "\<exists>es. (dateKeyOf e, es) \<in> set grouped" if "e \<in> set events" for e
  proof -
    from that have "filter (\<lambda>x. dateKeyOf x = dateKeyOf e) events \<noteq> []"
      by (auto simp: filter_empty_conv)
    then have "map_of grouped (dateKeyOf e) = Some (filter (\<lambda>x. dateKeyOf x = dateKeyOf e) events)"
      by (simp add: look)
    then show ?thesis by (blast dest: map_of_SomeD)
  qed
  show "\<exists>grouped. groupEventsByDay events = Inr grouped
         \<and> distinct (map fst grouped)
         \<and> (\<forall>(k, es)\<in>set grouped. es \<noteq> [] \<and> es = filter (\<lambda>e. dateKeyOf e = k) events)
         \<and> (\<forall>e\<in>set events. \<exists>es. (dateKeyOf e, es) \<in> set grouped)
         \<and> mset (concat (map snd grouped)) = mset events
         \<and> (\<forall>e\<in>set events. \<forall>t. startDate e = Some t \<longrightarrow> dateKeyOf e = isoDate t)"
    using res dist groups filed ms dateKeyOf_valid
    by (intro exI [of _ grouped]) (auto simp: groupEventsByDay_def)
qed


text \<open>
  Two events on 2024-01-15, the first of them ending on the next day, and one on
  1970-01-01 between them; then a list with an event whose start is an Invalid Date.
\<close>

theorem groupEventsByDay_partition_witness:
  "groupEventsByDay
      [\<lparr>uid = ''a'', summary = ''Night shift'', startDate = Some 1705314600000,
        endDate = Some 1705400000000, location = None, description = None, calendar = None\<rparr>,
       \<lparr>uid = ''b'', summary = ''Epoch'', startDate = Some 0,
        endDate = Some 3600000, location = None, description = None, calendar = None\<rparr>,
       \<lparr>uid = ''c'', summary = ''Review'', startDate = Some 1705314600001,
        endDate = Some 1705318200000, location = None, description = None, calendar = None\<rparr>]
     = Inr [(''2024-01-15'',
        [\<lparr>uid = ''a'', summary = ''Night shift'', startDate = Some 1705314600000,
        endDate = Some 1705400000000, location = None, description = None, calendar = None\<rparr>,
         \<lparr>uid = ''c'', summary = ''Review'', startDate = Some 1705314600001,
        endDate = Some 1705318200000, location = None, description = None, calendar = None\<rparr>]),
       (''1970-01-01'',
        [\<lparr>uid = ''b'', summary = ''Epoch'', startDate = Some 0,
        endDate = Some 3600000, location = None, description = None, calendar = None\<rparr>])]
   \<and> mset (concat (map snd [(''2024-01-15'',
        [\<lparr>uid = ''a'', summary = ''Night shift'', startDate = Some 1705314600000,
        endDate = Some 1705400000000, location = None, description = None, calendar = None\<rparr>,
         \<lparr>uid = ''c'', summary = ''Review'', startDate = Some 1705314600001,
        endDate = Some 1705318200000, location = None, description = None, calendar = None\<rparr>]),
       (''1970-01-01'',
        [\<lparr>uid = ''b'', summary = ''Epoch'', startDate = Some 0,
        endDate = Some 3600000, location = None, description = None, calendar = None\<rparr>])]))
     = mset [\<lparr>uid = ''a'', summary = ''Night shift'', startDate = Some 1705314600000,
        endDate = Some 1705400000000, location = None, description = None, calendar = None\<rparr>,
       \<lparr>uid = ''b'', summary = ''Epoch'', startDate = Some 0,
        endDate = Some 3600000, location = None, description = None, calendar = None\<rparr>,
       \<lparr>uid = ''c'', summary = ''Review'', startDate = Some 1705314600001,
        endDate = Some 1705318200000, location = None, description = None, calendar = None\<rparr>]
   \<and> groupEventsByDay
      [\<lparr>uid = ''b'', summary = ''Epoch'', startDate = Some 0,
        endDate = Some 3600000, location = None, description = None, calendar = None\<rparr>,
       \<lparr>uid = ''d'', summary = ''Broken'', startDate = None,
        endDate = None, location = None, description = None, calendar = None\<rparr>]
     = Inl RangeError"
  (is "?G = Inr ?grouped \<and> ?M = ?E \<and> ?B = _")
proof -
  have ev: "?G = Inr ?grouped"
    by code_simp
  have valid: "\<forall>e\<in>set [\<lparr>uid = ''a'', summary = ''Night shift'', startDate = Some 1705314600000,
        endDate = Some 1705400000000, location = None, description = None, calendar = None\<rparr>,
       \<lparr>uid = ''b'', summary = ''Epoch'', startDate = Some 0,
        endDate = Some 3600000, location = None, description = None, calendar = None\<rparr>,
       \<lparr>uid = ''c'', summary = ''Review'', startDate = Some 1705314600001,
        endDate = Some 1705318200000, location = None, description = None, calendar = None\<rparr>]. startDate e \<noteq> None"
    by simp
  have invalid: "\<exists>e\<in>set [\<lparr>uid = ''b'', summary = ''Epoch'', startDate = Some 0,
        endDate = Some 3600000, location = None, description = None, calendar = None\<rparr>,
       \<lparr>uid = ''d'', summary = ''Broken'', startDate = None,
        endDate = None, location = None, description = None, calendar = None\<rparr>]. startDate e = None"
    by simp
  from groupEventsByDay_partition [of "[\<lparr>uid = ''a'', summary = ''Night shift'', startDate = Some 1705314600000,
        endDate = Some 1705400000000, location = None, description = None, calendar = None\<rparr>,
       \<lparr>uid = ''b'', summary = ''Epoch'', startDate = Some 0,
        endDate = Some 3600000, location = None, description = None, calendar = None\<rparr>,
       \<lparr>uid = ''c'', summary = ''Review'', startDate = Some 1705314600001,
        endDate = Some 1705318200000, location = None, description = None, calendar = None\<rparr>]"] valid
  obtain grouped where "?G = Inr grouped" and "mset (concat (map snd grouped)) = ?E"
    by blast
  with ev have "?M = ?E" by simp
  moreover from groupEventsByDay_partition [of "[\<lparr>uid = ''b'', summary = ''Epoch'', startDate = Some 0,
        endDate = Some 3600000, location = None, description = None, calendar = None\<rparr>,
       \<lparr>uid = ''d'', summary = ''Broken'', startDate = None,
        endDate = None, location = None, description = None, calendar = None\<rparr>]"] invalid
  have "?B = Inl RangeError" by blast
  ultimately show ?thesis using ev by blast
qed

section \<open>Expansion of one definition\<close>

text \<open>
  On an output of one line, \<open>listEvents\<close> and \<open>listAllEvents\<close> are the body of their loop
  on the fields of that line.  The body has two cases: a rule that is not blank, and no
  rule.
\<close>

lemma splitOn_absent: "c \<notin> set s \<Longrightarrow> splitOn c s = [s]"
  by (induction s) auto

lemma listEvents_line:
  "line \<noteq> [] \<Longrightarrow> CHR 0x0A \<notin> set line \<Longrightarrow>
   listEvents rr newDate cal qs qe line = expandDefinition rr newDate (Some cal) qs qe (parseLine line)"
  by (simp add: listEvents_def resultLines_def splitOn_absent Let_def)


lemma stripPrefixes_Nil: "stripPrefixes ws [] = []"
  by (subst stripPrefixes.simps) (auto simp: find_Some_iff split: option.splits)

lemma trim_Nil: "trim [] = []"
  by (simp add: trim_def stripPrefixes_Nil)

lemma expandDefinition_recurring:
  assumes "raw_recurrence raw = Some r" and "trim r \<noteq> []"
  shows "expandDefinition rr newDate cal qs qe raw =
     (case tryExpand rr (baseStart newDate raw) r qs qe of
        Some occurrences \<Rightarrow>
          (map (\<lambda>occurrence. mkEvent cal raw (Some occurrence)
                  (num_add (Some occurrence)
                     (num_sub (baseEnd newDate raw) (baseStart newDate raw)))) occurrences, [])
      | None \<Rightarrow> ([mkEvent cal raw (baseStart newDate raw) (baseEnd newDate raw)], [r]))"
proof -
  from assms have "r \<noteq> []" by (auto simp: trim_Nil)
  then show ?thesis
    using assms
    by (simp add: expandDefinition_def Let_def truthy_def or_empty_def baseStart_def baseEnd_def
          getTime_def split: option.splits)
qed

lemma expandDefinition_plain:
  assumes "raw_recurrence raw = None \<or> (\<exists>r. raw_recurrence raw = Some r \<and> trim r = [])"
  shows "expandDefinition rr newDate cal qs qe raw =
     (if num_ge (baseStart newDate raw) qs \<and> num_le (baseStart newDate raw) qe
      then ([mkEvent cal raw (baseStart newDate raw) (baseEnd newDate raw)], [])
      else ([], []))"
  using assms
  by (auto simp add: expandDefinition_def Let_def truthy_def or_empty_def baseStart_def baseEnd_def)

text \<open>A failure is logged exactly when a rule that is not blank fails in the \<open>try\<close> block.\<close>

lemma expandDefinition_fails_iff:
  assumes "raw_recurrence raw = Some r"
  shows "snd (expandDefinition rr newDate cal queryStart queryEnd raw) \<noteq> []
     \<longleftrightarrow> trim r \<noteq> [] \<and> tryExpand rr (baseStart newDate raw) r queryStart queryEnd = None"
proof (cases "trim r = []")
  case True
  then show ?thesis using assms by (simp add: expandDefinition_plain)
next
  case False
  then show ?thesis
    by (auto simp add: expandDefinition_recurring [OF assms False] split: option.splits)
qed





text \<open>
  Claim C6: when the rule is empty or absent, the definition yields exactly one
  occurrence, with the base start and end unchanged, if its base start lies within
  \<open>[queryStart, queryEnd]\<close>, both ends included, and no occurrence otherwise.
\<close>

theorem expandDefinition_nonrecurring:
  assumes "raw_recurrence raw = None \<or> raw_recurrence raw = Some []"
  shows "(num_le queryStart (baseStart newDate raw) \<and> num_le (baseStart newDate raw) queryEnd \<longrightarrow>
            (\<exists>ev. fst (expandDefinition rr newDate cal queryStart queryEnd raw) = [ev]
               \<and> startDate ev = baseStart newDate raw \<and> endDate ev = baseEnd newDate raw
               \<and> ev = mkEvent cal raw (baseStart newDate raw) (baseEnd newDate raw)))
         \<and> (\<not> (num_le queryStart (baseStart newDate raw) \<and> num_le (baseStart newDate raw) queryEnd) \<longrightarrow>
            fst (expandDefinition rr newDate cal queryStart queryEnd raw) = [])
         \<and> (\<forall>s a b. baseStart newDate raw = Some s \<and> queryStart = Some a \<and> queryEnd = Some b \<longrightarrow>
              (num_le queryStart (baseStart newDate raw) \<and> num_le (baseStart newDate raw) queryEnd
                 \<longleftrightarrow> a \<le> s \<and> s \<le> b))"
proof -
  from assms have "raw_recurrence raw = None \<or> (\<exists>r. raw_recurrence raw = Some r \<and> trim r = [])"
    by (auto simp: trim_Nil)
  from expandDefinition_plain [OF this] show ?thesis
    by (auto simp add: mkEvent_def num_ge_def num_le_def)
qed


text \<open>
  An event with an empty rule that starts exactly at the start of the window is
  returned; the same event, with no rule field, is not returned by a window that starts
  one millisecond later.
\<close>

theorem expandDefinition_nonrecurring_witness:
  "raw_recurrence (parseLine ''u2|Lunch|2024-01-15T12:00:00|2024-01-15T13:00:00|||'') = Some []
   \<and> fst (listEvents (\<lambda>_ _ _. None)
        (\<lambda>s. if s = ''2024-01-15T12:00:00'' then Some 1705320000000
             else if s = ''2024-01-15T13:00:00'' then Some 1705323600000 else None)
        ''Work'' (Some 1705320000000) (Some 1705406400000)
        ''u2|Lunch|2024-01-15T12:00:00|2024-01-15T13:00:00|||'')
     = [\<lparr>uid = ''u2'', summary = ''Lunch'', startDate = Some 1705320000000,
         endDate = Some 1705323600000, location = None, description = None,
         calendar = Some ''Work''\<rparr>]
   \<and> raw_recurrence (parseLine ''u2|Lunch|2024-01-15T12:00:00|2024-01-15T13:00:00'') = None
   \<and> fst (listEvents (\<lambda>_ _ _. None)
        (\<lambda>s. if s = ''2024-01-15T12:00:00'' then Some 1705320000000
             else if s = ''2024-01-15T13:00:00'' then Some 1705323600000 else None)
        ''Work'' (Some 1705320000001) (Some 1705406400000)
        ''u2|Lunch|2024-01-15T12:00:00|2024-01-15T13:00:00'')
     = []"
  (is "raw_recurrence (parseLine ?l1) = _ \<and> fst (listEvents ?rr ?nd _ ?qs1 ?qe _) = [?ev]
       \<and> raw_recurrence (parseLine ?l2) = _ \<and> fst (listEvents _ _ _ ?qs2 _ _) = _")
proof -
  have line1: "listEvents ?rr ?nd ''Work'' ?qs1 ?qe ?l1
                = expandDefinition ?rr ?nd (Some ''Work'') ?qs1 ?qe (parseLine ?l1)"
    by (rule listEvents_line) simp_all
  have line2: "listEvents ?rr ?nd ''Work'' ?qs2 ?qe ?l2
                = expandDefinition ?rr ?nd (Some ''Work'') ?qs2 ?qe (parseLine ?l2)"
    by (rule listEvents_line) simp_all
  have r1: "raw_recurrence (parseLine ?l1) = Some []" by code_simp
  have r2: "raw_recurrence (parseLine ?l2) = None" by code_simp
  have in1: "num_le ?qs1 (baseStart ?nd (parseLine ?l1)) \<and> num_le (baseStart ?nd (parseLine ?l1)) ?qe"
    by code_simp
  have out2: "\<not> (num_le ?qs2 (baseStart ?nd (parseLine ?l2)) \<and> num_le (baseStart ?nd (parseLine ?l2)) ?qe)"
    by code_simp
  have base: "mkEvent (Some ''Work'') (parseLine ?l1) (baseStart ?nd (parseLine ?l1))
                (baseEnd ?nd (parseLine ?l1)) = ?ev"
    by code_simp
  from expandDefinition_nonrecurring [of "parseLine ?l1" ?qs1 ?nd ?qe ?rr "Some ''Work''"] r1 in1
  have one: "fst (expandDefinition ?rr ?nd (Some ''Work'') ?qs1 ?qe (parseLine ?l1))
          = [mkEvent (Some ''Work'') (parseLine ?l1) (baseStart ?nd (parseLine ?l1))
                (baseEnd ?nd (parseLine ?l1))]"
    by auto
  from expandDefinition_nonrecurring [of "parseLine ?l2" ?qs2 ?nd ?qe ?rr "Some ''Work''"] r2 out2
  have none: "fst (expandDefinition ?rr ?nd (Some ''Work'') ?qs2 ?qe (parseLine ?l2)) = []"
    by blast
  show ?thesis
    using r1 r2 one none by (simp only: line1 line2 base simp_thms)
qed

end
